theory Spec2Isabelle
  imports Main
begin

section \<open>Characters and strings\<close>

text \<open>
  A Python \<open>str\<close> is a sequence of Unicode code points, so a character is modelled by its
  code point and a string by a list of code points. \<open>str\<close> turns an Isabelle string
  literal into such a list, \<open>isascii\<close> is \<open>str.isascii\<close> on a one-character string.
  The three characters the builder compares with are \<open>*\<close> (42), \<open>+\<close> (43), \<open>.\<close> (46).
\<close>

type_synonym pychar = nat
type_synonym pystr = "pychar list"

definition str :: "string \<Rightarrow> pystr" where
  "str cs = map of_char cs"

definition isascii :: "pychar \<Rightarrow> bool" where
  "isascii c = (c < 128)"

abbreviation chr_star :: pychar where "chr_star \<equiv> 42"
abbreviation chr_plus :: pychar where "chr_plus \<equiv> 43"
abbreviation chr_dot :: pychar where "chr_dot \<equiv> 46"

section \<open>States\<close>

text \<open>
  The six subclasses of \<open>State\<close>. \<open>AsciiState\<close> carries \<open>curr_sym\<close>; \<open>StarState\<close> and
  \<open>PlusState\<close> carry \<open>checking_state\<close>. The only use the program makes of
  \<open>checking_state\<close> is to call its \<open>check_self\<close>, which reads nothing but the class and
  the constructor arguments of that state, and those are never assigned again; so
  \<open>checking_state\<close> is kept as that immutable part of the wrapped state.
\<close>

datatype State_cls =
    StartState
  | TerminationState
  | DotState
  | AsciiState pychar
  | StarState State_cls
  | PlusState State_cls

primrec check_self :: "State_cls \<Rightarrow> pychar \<Rightarrow> bool" where
  "check_self StartState char = True"
| "check_self TerminationState char = False"
| "check_self DotState char = True"
| "check_self (AsciiState curr_sym) curr_char = (curr_char = curr_sym)"
| "check_self (StarState checking_state) char = check_self checking_state char"
| "check_self (PlusState checking_state) char = check_self checking_state char"

text \<open>
  State objects live in a heap, a list indexed by address; the address of an object is
  what \<open>id\<close> returns and what a \<open>next_states\<close> list holds. \<open>next_states\<close> is the mutable
  list of each object.
\<close>

type_synonym addr = nat

record State =
  cls :: State_cls
  next_states :: "addr list"

type_synonym heap = "State list"

datatype error =
    ValueError      \<comment> \<open>\<open>raise ValueError("Invalid character")\<close>\<close>
  | IndexError      \<comment> \<open>list or string index out of range\<close>
  | RecursionError  \<comment> \<open>maximum recursion depth exceeded\<close>
  | DanglingAddress \<comment> \<open>an address outside the heap: no Python run reaches it\<close>

definition deref :: "heap \<Rightarrow> addr \<Rightarrow> error + State" where
  "deref h a = (if a < length h then Inr (h ! a) else Inl DanglingAddress)"

text \<open>\<open>a.next_states.append(x)\<close> and \<open>a.next_states.extend(xs)\<close>.\<close>

definition next_states_append :: "addr \<Rightarrow> addr \<Rightarrow> heap \<Rightarrow> heap" where
  "next_states_append a x h = h[a := (h ! a)\<lparr>next_states := next_states (h ! a) @ [x]\<rparr>]"

definition next_states_extend :: "addr \<Rightarrow> addr list \<Rightarrow> heap \<Rightarrow> heap" where
  "next_states_extend a xs h = h[a := (h ! a)\<lparr>next_states := next_states (h ! a) @ xs\<rparr>]"

text \<open>\<open>xs[-k]\<close> for \<open>k \<ge> 1\<close>: the \<open>k\<close>-th element from the end, IndexError when there is none.\<close>

definition from_end :: "'a list \<Rightarrow> nat \<Rightarrow> error + 'a" where
  "from_end xs k = (if 1 \<le> k \<and> k \<le> length xs then Inr (xs ! (length xs - k)) else Inl IndexError)"

section \<open>The builder: \<open>RegexFSM.__init__\<close>\<close>

text \<open>
  A \<open>RegexFSM\<close> object has the attributes \<open>start_state\<close> and \<open>states\<close>, both holding
  addresses; the record carries the heap its states live in as well. A new state gets the
  next free address, \<open>length (heap fsm)\<close>. The addresses the builder dereferences are
  read from \<open>self.states\<close>, which only ever holds addresses of allocated states.
\<close>

record RegexFSM =
  heap :: heap
  start_state :: addr
  states :: "addr list"

text \<open>
  The branch for a literal and the branch for \<open>.\<close>: allocate the new state, append it to
  the \<open>next_states\<close> of \<open>self.states[-1]\<close>, append it to \<open>self.states\<close>.
\<close>

definition add_atom :: "State_cls \<Rightarrow> RegexFSM \<Rightarrow> error + RegexFSM" where
  "add_atom c fsm =
     (let new_state = length (heap fsm);
          h1 = heap fsm @ [\<lparr>cls = c, next_states = []\<rparr>]
      in case from_end (states fsm) 1 of
           Inl e \<Rightarrow> Inl e
         | Inr lst \<Rightarrow>
             Inr (fsm\<lparr>heap := next_states_append lst new_state h1,
                      states := states fsm @ [new_state]\<rparr>))"

text \<open>
  The branch for \<open>*\<close>. \<open>StarState.__init__\<close> puts the new state into its own
  \<open>next_states\<close>; then the star takes the transitions of the base, the base takes those
  of the star, and \<open>self.states[-2]\<close> gets the star.
\<close>

definition add_star :: "RegexFSM \<Rightarrow> error + RegexFSM" where
  "add_star fsm =
     (case from_end (states fsm) 1 of
        Inl e \<Rightarrow> Inl e
      | Inr base_state \<Rightarrow>
          let star_state = length (heap fsm);
              h1 = heap fsm @ [\<lparr>cls = StarState (cls (heap fsm ! base_state)),
                                next_states = [star_state]\<rparr>];
              h2 = next_states_extend star_state (next_states (h1 ! base_state)) h1;
              h3 = next_states_extend base_state (next_states (h2 ! star_state)) h2
          in case from_end (states fsm) 2 of
               Inl e \<Rightarrow> Inl e
             | Inr pred \<Rightarrow>
                 Inr (fsm\<lparr>heap := next_states_append pred star_state h3,
                          states := states fsm @ [star_state]\<rparr>))"

text \<open>The branch for \<open>+\<close>: as for \<open>*\<close>, but the base does not take the transitions of the plus.\<close>

definition add_plus :: "RegexFSM \<Rightarrow> error + RegexFSM" where
  "add_plus fsm =
     (case from_end (states fsm) 1 of
        Inl e \<Rightarrow> Inl e
      | Inr base_state \<Rightarrow>
          let plus_state = length (heap fsm);
              h1 = heap fsm @ [\<lparr>cls = PlusState (cls (heap fsm ! base_state)),
                                next_states = [plus_state]\<rparr>];
              h2 = next_states_extend plus_state (next_states (h1 ! base_state)) h1
          in case from_end (states fsm) 2 of
               Inl e \<Rightarrow> Inl e
             | Inr pred \<Rightarrow>
                 Inr (fsm\<lparr>heap := next_states_append pred plus_state h2,
                          states := states fsm @ [plus_state]\<rparr>))"

text \<open>One iteration of the \<open>while\<close> loop, on the character \<open>regex_expr[i]\<close>.\<close>

definition consume :: "RegexFSM \<Rightarrow> pychar \<Rightarrow> error + RegexFSM" where
  "consume fsm char =
     (if isascii char \<and> char \<notin> {chr_star, chr_plus, chr_dot} then add_atom (AsciiState char) fsm
      else if char = chr_dot then add_atom DotState fsm
      else if char = chr_star then add_star fsm
      else if char = chr_plus then add_plus fsm
      else Inl ValueError)"

text \<open>
  The loop visits the characters of \<open>regex_expr\<close> from left to right, every branch ending
  in \<open>i += 1\<close>, and stops at the first exception.
\<close>

fun scan :: "RegexFSM \<Rightarrow> pystr \<Rightarrow> error + RegexFSM" where
  "scan fsm [] = Inr fsm"
| "scan fsm (char # rest) =
     (case consume fsm char of Inl e \<Rightarrow> Inl e | Inr fsm' \<Rightarrow> scan fsm' rest)"

definition initial_fsm :: RegexFSM where
  "initial_fsm = \<lparr>heap = [\<lparr>cls = StartState, next_states = []\<rparr>], start_state = 0, states = [0]\<rparr>"

definition add_termination :: "RegexFSM \<Rightarrow> error + RegexFSM" where
  "add_termination fsm =
     (let termination = length (heap fsm);
          h1 = heap fsm @ [\<lparr>cls = TerminationState, next_states = []\<rparr>]
      in case from_end (states fsm) 1 of
           Inl e \<Rightarrow> Inl e
         | Inr lst \<Rightarrow> Inr (fsm\<lparr>heap := next_states_append lst termination h1\<rparr>))"

definition RegexFSM_init :: "pystr \<Rightarrow> error + RegexFSM" where
  "RegexFSM_init regex_expr =
     (case scan initial_fsm regex_expr of
        Inl e \<Rightarrow> Inl e
      | Inr fsm \<Rightarrow> add_termination fsm)"


section \<open>The matcher: \<open>RegexFSM.check_string\<close>\<close>

text \<open>
  \<open>dfs\<close> is recursive, and the interpreter bounds the depth of the call stack: a call of
  a Python function that would go beyond the recursion limit raises RecursionError, which
  nothing in the program catches. The matcher therefore carries \<open>frames\<close>, the number of
  frames that can still be pushed at this point. Every call of a Python function (\<open>dfs\<close>,
  \<open>check_self\<close>, the generator expression given to \<open>any\<close>) takes one frame for as long as it
  runs; the builtins (\<open>len\<close>, \<open>id\<close>, \<open>isinstance\<close>, \<open>any\<close>, \<open>set.add\<close>) take none. For
  \<open>check_string\<close>, \<open>frames\<close> is the recursion limit less the depth of the frame of
  \<open>check_string\<close> itself: 998 when the limit is the default 1000 and \<open>check_string\<close> is
  called from the module.
\<close>

text \<open>
  A call \<open>state.check_self(char)\<close>: one frame, and one more for every \<open>StarState\<close> or
  \<open>PlusState\<close> around the innermost state, since each of them calls the \<open>check_self\<close> of
  its \<open>checking_state\<close>.
\<close>

primrec call_depth :: "State_cls \<Rightarrow> nat" where
  "call_depth StartState = 1"
| "call_depth TerminationState = 1"
| "call_depth DotState = 1"
| "call_depth (AsciiState curr_sym) = 1"
| "call_depth (StarState checking_state) = Suc (call_depth checking_state)"
| "call_depth (PlusState checking_state) = Suc (call_depth checking_state)"

definition check_self_call :: "nat \<Rightarrow> State_cls \<Rightarrow> pychar \<Rightarrow> error + bool" where
  "check_self_call frames c char =
     (if call_depth c \<le> frames then Inr (check_self c char) else Inl RecursionError)"

text \<open>
  \<open>any(isinstance(s, TerminationState) for s in state.next_states)\<close>: the generator
  expression runs in a frame of its own; \<open>any_Termination\<close> is what it computes there.
\<close>

fun any_Termination :: "heap \<Rightarrow> addr list \<Rightarrow> error + bool" where
  "any_Termination h [] = Inr False"
| "any_Termination h (s # rest) =
     (case deref h s of
        Inl e \<Rightarrow> Inl e
      | Inr st \<Rightarrow> if cls st = TerminationState then Inr True else any_Termination h rest)"

definition any_Termination_call :: "nat \<Rightarrow> heap \<Rightarrow> addr list \<Rightarrow> error + bool" where
  "any_Termination_call frames h ns =
     (if frames = 0 then Inl RecursionError else any_Termination h ns)"

text \<open>
  \<open>dfs\<close> is the nested function of \<open>check_string\<close>; the heap and \<open>input_string\<close> it closes
  over are parameters, the set \<open>visited\<close> it updates is passed in and returned. The first
  argument is the number of frames left when \<open>dfs\<close> is called: none left is the
  RecursionError, otherwise the body runs with one frame less. \<open>dfs_for\<close> is the \<open>for\<close>
  loop over \<open>state.next_states\<close>, inside the frame of \<open>dfs\<close>.
\<close>

type_synonym visited = "(addr \<times> nat) set"

function dfs :: "nat \<Rightarrow> heap \<Rightarrow> pystr \<Rightarrow> addr \<Rightarrow> nat \<Rightarrow> visited \<Rightarrow> error + bool \<times> visited"
  and dfs_for :: "nat \<Rightarrow> heap \<Rightarrow> pystr \<Rightarrow> addr list \<Rightarrow> nat \<Rightarrow> visited \<Rightarrow> error + bool \<times> visited"
where
  "dfs 0 h s state idx visited = Inl RecursionError"
| "dfs (Suc frames) h s state idx visited =
     (if (state, idx) \<in> visited then Inr (False, visited)
      else
        case deref h state of
          Inl e \<Rightarrow> Inl e
        | Inr st \<Rightarrow>
            if idx = length s then
              (case any_Termination_call frames h (next_states st) of
                 Inl e \<Rightarrow> Inl e
               | Inr b \<Rightarrow> Inr (b, insert (state, idx) visited))
            else dfs_for frames h s (next_states st) idx (insert (state, idx) visited))"
| "dfs_for frames h s [] idx visited = Inr (False, visited)"
| "dfs_for frames h s (next_state # rest) idx visited =
     (case deref h next_state of
        Inl e \<Rightarrow> Inl e
      | Inr nst \<Rightarrow>
          if idx < length s then
            (case check_self_call frames (cls nst) (s ! idx) of
               Inl e \<Rightarrow> Inl e
             | Inr accepted \<Rightarrow>
                 if accepted then
                   (case dfs frames h s next_state (idx + 1) visited of
                      Inl e \<Rightarrow> Inl e
                    | Inr (found, visited') \<Rightarrow>
                        if found then Inr (True, visited')
                        else dfs_for frames h s rest idx visited')
                 else
                   (case dfs frames h s next_state idx visited of
                      Inl e \<Rightarrow> Inl e
                    | Inr (found, visited') \<Rightarrow>
                        if found then Inr (True, visited')
                        else dfs_for frames h s rest idx visited'))
          else Inl IndexError)"
  by pat_completeness auto

text \<open>
  Every nested call of \<open>dfs\<close> has one frame less, and the loop goes down its list, so the
  recursion ends, with a result or with the RecursionError.
\<close>

termination dfs
  by (relation "inv_image (less_than <*lex*> less_than)
        (\<lambda>x. case x of
           Inl (frames, h, s, state, idx, v) \<Rightarrow> (frames, 0)
         | Inr (frames, h, s, ns, idx, v) \<Rightarrow> (frames, Suc (length ns)))")
    auto

definition check_string :: "nat \<Rightarrow> RegexFSM \<Rightarrow> pystr \<Rightarrow> error + bool" where
  "check_string frames self input_string =
     (case dfs frames (heap self) input_string (start_state self) 0 {} of
        Inl e \<Rightarrow> Inl e
      | Inr (found, visited) \<Rightarrow> Inr found)"

text \<open>
  \<open>RegexFSM(regex_expr).check_string(input_string)\<close>, with \<open>frames\<close> frames left for
  \<open>check_string\<close> to use.
\<close>

definition regex_check :: "nat \<Rightarrow> pystr \<Rightarrow> pystr \<Rightarrow> error + bool" where
  "regex_check frames regex_expr input_string =
     (case RegexFSM_init regex_expr of
        Inl e \<Rightarrow> Inl e
      | Inr fsm \<Rightarrow> check_string frames fsm input_string)"

section \<open>Facts about the builder\<close>

text \<open>
  While the pattern is scanned, \<open>self.states\<close> holds every state allocated so far, in
  allocation order, and the start state is the first of them.
\<close>

definition frontier_ok :: "RegexFSM \<Rightarrow> bool" where
  "frontier_ok fsm \<longleftrightarrow>
     heap fsm \<noteq> [] \<and> states fsm = [0..<length (heap fsm)] \<and> start_state fsm = 0"

text \<open>The heaps the three kinds of step and the final step produce.\<close>

definition atom_heap :: "State_cls \<Rightarrow> heap \<Rightarrow> heap" where
  "atom_heap c h =
     next_states_extend (length h - 1) [length h] (h @ [\<lparr>cls = c, next_states = []\<rparr>])"

definition star_heap :: "heap \<Rightarrow> heap" where
  "star_heap h =
     (let n = length h;
          h1 = h @ [\<lparr>cls = StarState (cls (h ! (n - 1))), next_states = [n]\<rparr>];
          h2 = next_states_extend n (next_states (h1 ! (n - 1))) h1;
          h3 = next_states_extend (n - 1) (next_states (h2 ! n)) h2
      in next_states_extend (n - 2) [n] h3)"

definition plus_heap :: "heap \<Rightarrow> heap" where
  "plus_heap h =
     (let n = length h;
          h1 = h @ [\<lparr>cls = PlusState (cls (h ! (n - 1))), next_states = [n]\<rparr>];
          h2 = next_states_extend n (next_states (h1 ! (n - 1))) h1
      in next_states_extend (n - 2) [n] h2)"

lemma next_states_append_extend: "next_states_append a x h = next_states_extend a [x] h"
  by (simp add: next_states_append_def next_states_extend_def)

lemma length_next_states_extend [simp]: "length (next_states_extend a xs h) = length h"
  by (simp add: next_states_extend_def)

lemma next_states_extend_eq_Nil [simp]: "next_states_extend a xs h = [] \<longleftrightarrow> h = []"
  by (simp add: next_states_extend_def)

lemma cls_next_states_extend [simp]: "cls (next_states_extend a xs h ! k) = cls (h ! k)"
  unfolding next_states_extend_def
  by (cases "a < length h") (auto simp: nth_list_update list_update_beyond)

lemma next_states_next_states_extend:
  "next_states (next_states_extend a xs h ! k) =
     (if k = a \<and> a < length h then next_states (h ! a) @ xs else next_states (h ! k))"
  unfolding next_states_extend_def
  by (cases "a < length h") (auto simp: nth_list_update list_update_beyond)

lemma from_end_upt_1: "0 < n \<Longrightarrow> from_end [0..<n] (Suc 0) = Inr (n - 1)"
  by (simp add: from_end_def)

lemma from_end_upt_2: "from_end [0..<n] 2 = (if 2 \<le> n then Inr (n - 2) else Inl IndexError)"
  by (simp add: from_end_def)

lemma length_atom_heap [simp]: "length (atom_heap c h) = Suc (length h)"
  by (simp add: atom_heap_def)

lemma length_star_heap [simp]: "length (star_heap h) = Suc (length h)"
  by (simp add: star_heap_def Let_def)

lemma length_plus_heap [simp]: "length (plus_heap h) = Suc (length h)"
  by (simp add: plus_heap_def Let_def)

text \<open>The class and the transitions of every state after each kind of step.\<close>

lemma cls_atom_heap:
  "k \<le> length h \<Longrightarrow> cls (atom_heap c h ! k) = (if k = length h then c else cls (h ! k))"
  by (simp add: atom_heap_def nth_append)

lemma next_states_atom_heap:
  "h \<noteq> [] \<Longrightarrow> k \<le> length h \<Longrightarrow>
   next_states (atom_heap c h ! k) =
     (if k = length h then []
      else if k = length h - 1 then next_states (h ! k) @ [length h]
      else next_states (h ! k))"
  by (cases h rule: rev_cases) (auto simp: atom_heap_def next_states_next_states_extend nth_append)

lemma cls_star_heap:
  "k \<le> length h \<Longrightarrow>
   cls (star_heap h ! k) = (if k = length h then StarState (cls (h ! (length h - 1))) else cls (h ! k))"
  by (simp add: star_heap_def Let_def nth_append)

lemma next_states_star_heap:
  "2 \<le> length h \<Longrightarrow> k \<le> length h \<Longrightarrow>
   next_states (star_heap h ! k) =
     (if k = length h then length h # next_states (h ! (length h - 1))
      else if k = length h - 1 then next_states (h ! k) @ length h # next_states (h ! k)
      else if k = length h - 2 then next_states (h ! k) @ [length h]
      else next_states (h ! k))"
  by (auto simp: star_heap_def Let_def next_states_next_states_extend nth_append)

lemma cls_plus_heap:
  "k \<le> length h \<Longrightarrow>
   cls (plus_heap h ! k) = (if k = length h then PlusState (cls (h ! (length h - 1))) else cls (h ! k))"
  by (simp add: plus_heap_def Let_def nth_append)

lemma next_states_plus_heap:
  "2 \<le> length h \<Longrightarrow> k \<le> length h \<Longrightarrow>
   next_states (plus_heap h ! k) =
     (if k = length h then length h # next_states (h ! (length h - 1))
      else if k = length h - 2 then next_states (h ! k) @ [length h]
      else next_states (h ! k))"
  by (auto simp: plus_heap_def Let_def next_states_next_states_extend nth_append)

text \<open>What each branch of the loop returns when the frontier is in order.\<close>

lemma add_atom_frontier:
  assumes "frontier_ok fsm"
  shows "\<exists>fsm'. add_atom c fsm = Inr fsm' \<and> frontier_ok fsm'
           \<and> heap fsm' = atom_heap c (heap fsm)"
  using assms
  by (simp add: add_atom_def frontier_ok_def from_end_upt_1 next_states_append_extend Let_def
      atom_heap_def)

lemma add_star_frontier:
  assumes "frontier_ok fsm" "2 \<le> length (heap fsm)"
  shows "\<exists>fsm'. add_star fsm = Inr fsm' \<and> frontier_ok fsm' \<and> heap fsm' = star_heap (heap fsm)"
  using assms
  by (simp add: add_star_def frontier_ok_def from_end_upt_1 from_end_upt_2
      next_states_append_extend Let_def star_heap_def)

lemma add_star_IndexError:
  assumes "frontier_ok fsm" "length (heap fsm) < 2"
  shows "add_star fsm = Inl IndexError"
  using assms
  by (simp add: add_star_def frontier_ok_def from_end_upt_1 from_end_upt_2 Let_def)

lemma add_plus_frontier:
  assumes "frontier_ok fsm" "2 \<le> length (heap fsm)"
  shows "\<exists>fsm'. add_plus fsm = Inr fsm' \<and> frontier_ok fsm' \<and> heap fsm' = plus_heap (heap fsm)"
  using assms
  by (simp add: add_plus_def frontier_ok_def from_end_upt_1 from_end_upt_2
      next_states_append_extend Let_def plus_heap_def)

lemma add_plus_IndexError:
  assumes "frontier_ok fsm" "length (heap fsm) < 2"
  shows "add_plus fsm = Inl IndexError"
  using assms
  by (simp add: add_plus_def frontier_ok_def from_end_upt_1 from_end_upt_2 Let_def)

lemma add_termination_frontier:
  assumes "frontier_ok fsm"
  shows "\<exists>fsm'. add_termination fsm = Inr fsm' \<and> start_state fsm' = 0
           \<and> heap fsm' = atom_heap TerminationState (heap fsm)"
  using assms
  by (simp add: add_termination_def frontier_ok_def from_end_upt_1 next_states_append_extend
      Let_def atom_heap_def)

lemma frontier_ok_initial: "frontier_ok initial_fsm"
  by (simp add: frontier_ok_def initial_fsm_def)

text \<open>
  The result of one iteration: a non-ASCII character raises ValueError, an operator with
  fewer than two states raises IndexError, everything else adds one state.
\<close>

datatype step_kind = Atom_step State_cls | Star_step | Plus_step

fun step_heap :: "step_kind \<Rightarrow> heap \<Rightarrow> heap" where
  "step_heap (Atom_step c) h = atom_heap c h"
| "step_heap Star_step h = star_heap h"
| "step_heap Plus_step h = plus_heap h"

definition step_of :: "pychar \<Rightarrow> step_kind" where
  "step_of c = (if c = chr_star then Star_step else if c = chr_plus then Plus_step
                else if c = chr_dot then Atom_step DotState else Atom_step (AsciiState c))"

lemma consume_not_ascii: "\<not> isascii c \<Longrightarrow> consume fsm c = Inl ValueError"
  by (auto simp: consume_def isascii_def)

lemma consume_operator_IndexError:
  "frontier_ok fsm \<Longrightarrow> length (heap fsm) < 2 \<Longrightarrow> c = chr_star \<or> c = chr_plus \<Longrightarrow>
   consume fsm c = Inl IndexError"
  by (auto simp: consume_def add_star_IndexError add_plus_IndexError)

lemma consume_ok:
  assumes "frontier_ok fsm" "isascii c" "c = chr_star \<or> c = chr_plus \<Longrightarrow> 2 \<le> length (heap fsm)"
  shows "\<exists>fsm'. consume fsm c = Inr fsm' \<and> frontier_ok fsm'
           \<and> heap fsm' = step_heap (step_of c) (heap fsm)"
proof -
  consider "c = chr_star" | "c = chr_plus" | "c = chr_dot"
    | "c \<noteq> chr_star" "c \<noteq> chr_plus" "c \<noteq> chr_dot" by blast
  then show ?thesis
  proof cases
    case 1
    with assms add_star_frontier[of fsm] show ?thesis by (simp add: consume_def step_of_def)
  next
    case 2
    with assms add_plus_frontier[of fsm] show ?thesis by (simp add: consume_def step_of_def)
  next
    case 3
    with assms add_atom_frontier[of fsm DotState] show ?thesis
      by (simp add: consume_def step_of_def)
  next
    case 4
    with assms add_atom_frontier[of fsm "AsciiState c"] show ?thesis
      by (simp add: consume_def step_of_def)
  qed
qed

definition is_atom :: "State_cls \<Rightarrow> bool" where
  "is_atom c = (case c of DotState \<Rightarrow> True | AsciiState x \<Rightarrow> True | _ \<Rightarrow> False)"

definition step_ok :: "step_kind \<Rightarrow> heap \<Rightarrow> bool" where
  "step_ok k h = (h \<noteq> [] \<and> (case k of Atom_step c \<Rightarrow> is_atom c | _ \<Rightarrow> 2 \<le> length h))"

lemma is_atom_simps [simp]:
  "is_atom DotState" "is_atom (AsciiState x)" "\<not> is_atom StartState"
  "\<not> is_atom TerminationState" "\<not> is_atom (StarState c)" "\<not> is_atom (PlusState c)"
  by (simp_all add: is_atom_def)

lemma consume_Inr:
  assumes "frontier_ok fsm" "consume fsm c = Inr fsm'"
  shows "frontier_ok fsm' \<and> heap fsm' = step_heap (step_of c) (heap fsm)
         \<and> step_ok (step_of c) (heap fsm) \<and> isascii c"
proof -
  have asc: "isascii c"
    using assms(2) consume_not_ascii[of c fsm] by auto
  have two: "2 \<le> length (heap fsm)" if "c = chr_star \<or> c = chr_plus"
    using that assms consume_operator_IndexError[of fsm c] by (cases "length (heap fsm) < 2") auto
  from consume_ok[OF assms(1) asc two] assms(2)
  have "frontier_ok fsm'" "heap fsm' = step_heap (step_of c) (heap fsm)" by auto
  moreover have "step_ok (step_of c) (heap fsm)"
    using assms(1) two by (auto simp: step_ok_def step_of_def frontier_ok_def)
  ultimately show ?thesis using asc by simp
qed

lemma length_step_heap [simp]: "length (step_heap k h) = Suc (length h)"
  by (cases k) simp_all

text \<open>A property of heaps that every step keeps holds after the scan.\<close>

lemma scan_invariant:
  assumes step: "\<And>k h. I h \<Longrightarrow> step_ok k h \<Longrightarrow> I (step_heap k h)"
  shows "frontier_ok fsm \<Longrightarrow> I (heap fsm) \<Longrightarrow> scan fsm p = Inr fsm' \<Longrightarrow>
         frontier_ok fsm' \<and> I (heap fsm') \<and> length (heap fsm') = length (heap fsm) + length p"
proof (induction p arbitrary: fsm)
  case Nil
  then show ?case by simp
next
  case (Cons c p)
  from Cons.prems(3) obtain fsm1 where c1: "consume fsm c = Inr fsm1" and s1: "scan fsm1 p = Inr fsm'"
    by (auto split: sum.splits)
  from consume_Inr[OF Cons.prems(1) c1]
  have f1: "frontier_ok fsm1" and h1: "heap fsm1 = step_heap (step_of c) (heap fsm)"
    and ok: "step_ok (step_of c) (heap fsm)" by auto
  from step[OF Cons.prems(2) ok] h1 have "I (heap fsm1)" by simp
  from Cons.IH[OF f1 this s1] h1 show ?case by simp
qed

text \<open>The errors of the builder.\<close>

lemma scan_ValueError:
  "frontier_ok fsm \<Longrightarrow> 2 \<le> length (heap fsm) \<Longrightarrow> \<exists>c\<in>set p. \<not> isascii c \<Longrightarrow>
   scan fsm p = Inl ValueError"
proof (induction p arbitrary: fsm)
  case Nil
  then show ?case by simp
next
  case (Cons c p)
  show ?case
  proof (cases "isascii c")
    case False
    then show ?thesis by (simp add: consume_not_ascii)
  next
    case True
    with Cons.prems consume_ok[of fsm c] obtain fsm1 where
      c1: "consume fsm c = Inr fsm1" and f1: "frontier_ok fsm1"
      and h1: "heap fsm1 = step_heap (step_of c) (heap fsm)" by auto
    from True Cons.prems(3) have "\<exists>c\<in>set p. \<not> isascii c" by auto
    with Cons.IH[OF f1] h1 Cons.prems(2) c1 show ?thesis by simp
  qed
qed

lemma scan_succeeds:
  "frontier_ok fsm \<Longrightarrow> 2 \<le> length (heap fsm) \<Longrightarrow> \<forall>c\<in>set p. isascii c \<Longrightarrow>
   \<exists>fsm'. scan fsm p = Inr fsm' \<and> frontier_ok fsm'"
proof (induction p arbitrary: fsm)
  case Nil
  then show ?case by simp
next
  case (Cons c p)
  with consume_ok[of fsm c] obtain fsm1 where
    c1: "consume fsm c = Inr fsm1" and f1: "frontier_ok fsm1"
    and h1: "heap fsm1 = step_heap (step_of c) (heap fsm)" by auto
  from Cons.IH[OF f1] h1 Cons.prems c1 show ?case by simp
qed

lemma RegexFSM_init_Nil:
  "\<exists>fsm. RegexFSM_init [] = Inr fsm"
  using add_termination_frontier[OF frontier_ok_initial] by (auto simp: RegexFSM_init_def)

lemma RegexFSM_init_operator_first:
  assumes "c = chr_star \<or> c = chr_plus"
  shows "RegexFSM_init (c # p) = Inl IndexError"
  using consume_operator_IndexError[OF frontier_ok_initial _ assms]
  by (simp add: RegexFSM_init_def initial_fsm_def)

lemma RegexFSM_init_not_ascii:
  assumes "c \<noteq> chr_star" "c \<noteq> chr_plus" "\<exists>x\<in>set (c # p). \<not> isascii x"
  shows "RegexFSM_init (c # p) = Inl ValueError"
proof (cases "isascii c")
  case False
  then show ?thesis by (simp add: RegexFSM_init_def consume_not_ascii)
next
  case True
  with assms consume_ok[OF frontier_ok_initial, of c] obtain fsm1 where
    c1: "consume initial_fsm c = Inr fsm1" and f1: "frontier_ok fsm1"
    and h1: "heap fsm1 = step_heap (step_of c) (heap initial_fsm)" by auto
  from h1 have "2 \<le> length (heap fsm1)" by (simp add: initial_fsm_def)
  moreover from True assms(3) have "\<exists>x\<in>set p. \<not> isascii x" by auto
  ultimately have "scan fsm1 p = Inl ValueError" using f1 by (simp add: scan_ValueError)
  with c1 show ?thesis by (simp add: RegexFSM_init_def)
qed

lemma RegexFSM_init_ascii:
  assumes "c \<noteq> chr_star" "c \<noteq> chr_plus" "\<forall>x\<in>set (c # p). isascii x"
  shows "\<exists>fsm. RegexFSM_init (c # p) = Inr fsm"
proof -
  from assms consume_ok[OF frontier_ok_initial, of c] obtain fsm1 where
    c1: "consume initial_fsm c = Inr fsm1" and f1: "frontier_ok fsm1"
    and h1: "heap fsm1 = step_heap (step_of c) (heap initial_fsm)" by auto
  from h1 have "2 \<le> length (heap fsm1)" by (simp add: initial_fsm_def)
  with scan_succeeds[OF f1, of p] assms(3) obtain fsm2 where
    s2: "scan fsm1 p = Inr fsm2" and f2: "frontier_ok fsm2" by auto
  from add_termination_frontier[OF f2] c1 s2 show ?thesis
    by (auto simp: RegexFSM_init_def)
qed








text \<open>What a successful compilation returns.\<close>

lemma RegexFSM_init_Inr:
  assumes "RegexFSM_init p = Inr fsm"
  shows "\<exists>fsm0. scan initial_fsm p = Inr fsm0 \<and> frontier_ok fsm0
           \<and> length (heap fsm0) = Suc (length p)
           \<and> heap fsm = atom_heap TerminationState (heap fsm0) \<and> start_state fsm = 0"
proof -
  from assms obtain fsm0 where s: "scan initial_fsm p = Inr fsm0"
    and t: "add_termination fsm0 = Inr fsm"
    by (auto simp: RegexFSM_init_def split: sum.splits)
  from scan_invariant[of "\<lambda>h. True", OF _ frontier_ok_initial _ s]
  have f: "frontier_ok fsm0" and l: "length (heap fsm0) = Suc (length p)"
    by (simp_all add: initial_fsm_def)
  from add_termination_frontier[OF f] t s f l show ?thesis by auto
qed


lemma cls_step_heap_old: "k < length h \<Longrightarrow> cls (step_heap s h ! k) = cls (h ! k)"
  by (cases s) (simp_all add: cls_atom_heap cls_star_heap cls_plus_heap)

lemma RegexFSM_init_start:
  assumes "RegexFSM_init p = Inr fsm"
  shows "start_state fsm = 0 \<and> cls (heap fsm ! 0) = StartState \<and> 1 < length (heap fsm)"
proof -
  from RegexFSM_init_Inr[OF assms] obtain fsm0 where s: "scan initial_fsm p = Inr fsm0"
    and f: "frontier_ok fsm0" and h: "heap fsm = atom_heap TerminationState (heap fsm0)"
    and st: "start_state fsm = 0" by auto
  have "cls (step_heap k h ! 0) = StartState" if "cls (h ! 0) = StartState" "step_ok k h" for k h
    using that by (simp add: cls_step_heap_old step_ok_def)
  from scan_invariant[of "\<lambda>h. cls (h ! 0) = StartState", OF this frontier_ok_initial _ s]
  have "cls (heap fsm0 ! 0) = StartState" by (simp add: initial_fsm_def)
  with f h st show ?thesis by (simp add: cls_atom_heap frontier_ok_def)
qed


section \<open>Facts about the matcher\<close>

declare dfs.simps [simp del]

lemma check_self_call_Inr:
  "check_self_call frames c x = Inr b \<longleftrightarrow> call_depth c \<le> frames \<and> b = check_self c x"
  by (auto simp: check_self_call_def)


lemma any_Termination_call_Inr:
  "any_Termination_call frames h ns = Inr b \<longleftrightarrow> 0 < frames \<and> any_Termination h ns = Inr b"
  by (auto simp: any_Termination_call_def)

text \<open>More frames never change a result.\<close>

lemma dfs_mono:
  "dfs frames h s state idx v = Inr r \<Longrightarrow> frames \<le> frames' \<Longrightarrow>
     dfs frames' h s state idx v = Inr r"
  "dfs_for frames h s ns idx v = Inr r \<Longrightarrow> frames \<le> frames' \<Longrightarrow>
     dfs_for frames' h s ns idx v = Inr r"
proof (induction frames h s state idx v and frames h s ns idx v arbitrary: frames' r and frames' r
    rule: dfs_dfs_for.induct)
  case (1 h s state idx visited)
  then show ?case by (simp add: dfs.simps)
next
  case (2 frames h s state idx visited)
  from "2.prems"(2) obtain f' where f': "frames' = Suc f'" "frames \<le> f'"
    by (cases frames') auto
  show ?case
  proof (cases "(state, idx) \<in> visited")
    case True
    with "2.prems" f' show ?thesis by (simp add: dfs.simps)
  next
    case False
    with "2.prems"(1) obtain st where d: "deref h state = Inr st"
      by (auto simp: dfs.simps split: sum.splits)
    show ?thesis
    proof (cases "idx = length s")
      case True
      with "2.prems"(1) False d f' show ?thesis
        by (auto simp: dfs.simps any_Termination_call_def split: sum.splits if_splits)
    next
      case neq: False
      with "2.prems"(1) False d
      have "dfs_for frames h s (next_states st) idx (insert (state, idx) visited) = Inr r"
        by (simp add: dfs.simps)
      from "2.IH"[OF False d neq this f'(2)] False d neq f'(1) show ?thesis
        by (simp add: dfs.simps)
    qed
  qed
next
  case (3 frames h s idx visited)
  then show ?case by simp
next
  case (4 frames h s next_state rest idx visited)
  from "4.prems"(1) obtain nst where d: "deref h next_state = Inr nst"
    by (auto split: sum.splits)
  with "4.prems"(1) have lt: "idx < length s" by (auto split: if_splits)
  with "4.prems"(1) d obtain accepted where
    c: "check_self_call frames (cls nst) (s ! idx) = Inr accepted"
    by (auto split: sum.splits)
  with "4.prems"(2) have c': "check_self_call frames' (cls nst) (s ! idx) = Inr accepted"
    by (auto simp: check_self_call_Inr)
  show ?case
  proof (cases accepted)
    case True
    with "4.prems"(1) d lt c obtain found v' where
      r: "dfs frames h s next_state (idx + 1) visited = Inr (found, v')"
      by (auto split: sum.splits)
    from "4.IH"(1)[OF d lt c True r "4.prems"(2)]
    have r': "dfs frames' h s next_state (idx + 1) visited = Inr (found, v')" .
    show ?thesis
    proof (cases found)
      case True
      with "4.prems"(1) d lt c c' \<open>accepted\<close> r r' show ?thesis by auto
    next
      case False
      with "4.prems"(1) d lt c \<open>accepted\<close> r
      have "dfs_for frames h s rest idx v' = Inr r" by simp
      from "4.IH"(2)[OF d lt c \<open>accepted\<close> r refl False this "4.prems"(2)]
        d lt c' \<open>accepted\<close> r' False
      show ?thesis by simp
    qed
  next
    case nomatch: False
    with "4.prems"(1) d lt c obtain found v' where
      r: "dfs frames h s next_state idx visited = Inr (found, v')"
      by (auto split: sum.splits)
    from "4.IH"(3)[OF d lt c nomatch r "4.prems"(2)]
    have r': "dfs frames' h s next_state idx visited = Inr (found, v')" .
    show ?thesis
    proof (cases found)
      case True
      with "4.prems"(1) d lt c c' nomatch r r' show ?thesis by auto
    next
      case False
      with "4.prems"(1) d lt c nomatch r
      have "dfs_for frames h s rest idx v' = Inr r" by simp
      from "4.IH"(4)[OF d lt c nomatch r refl False this "4.prems"(2)]
        d lt c' nomatch r' False
      show ?thesis by simp
    qed
  qed
qed

lemma check_string_mono:
  "check_string frames fsm s = Inr b \<Longrightarrow> frames \<le> frames' \<Longrightarrow> check_string frames' fsm s = Inr b"
  by (auto simp: check_string_def split: sum.splits dest: dfs_mono(1))

lemma regex_check_mono:
  "regex_check frames p s = Inr b \<Longrightarrow> frames \<le> frames' \<Longrightarrow> regex_check frames' p s = Inr b"
  by (auto simp: regex_check_def split: sum.splits dest: check_string_mono)












text \<open>The guard: a pair that is already in \<open>visited\<close> is not explored again.\<close>

lemma dfs_visited_guard:
  "(state, idx) \<in> visited \<Longrightarrow> dfs (Suc frames) h s state idx visited = Inr (False, visited)"
  by (simp add: dfs.simps)





section \<open>States without transitions\<close>

text \<open>
  States without transitions while the pattern is scanned: the start state as long as it
  is alone, the state added last when it is a literal or a dot, and a literal or dot
  directly followed by the plus state that wraps it.
\<close>

definition dead_ends_ok :: "heap \<Rightarrow> bool" where
  "dead_ends_ok h \<longleftrightarrow>
     (\<forall>k<length h. cls (h ! k) \<noteq> TerminationState) \<and>
     (\<forall>k<length h. next_states (h ! k) = [] \<longrightarrow>
        (k = 0 \<and> length h = 1) \<or>
        (is_atom (cls (h ! k)) \<and> (Suc k < length h \<longrightarrow> cls (h ! Suc k) = PlusState (cls (h ! k)))))"

lemma dead_ends_ok_initial: "dead_ends_ok (heap initial_fsm)"
  by (simp add: dead_ends_ok_def initial_fsm_def)

lemma dead_ends_ok_atom_heap:
  assumes "dead_ends_ok h" "h \<noteq> []" "is_atom c"
  shows "dead_ends_ok (atom_heap c h)"
proof -
  have "cls (atom_heap c h ! k) \<noteq> TerminationState" if "k < length (atom_heap c h)" for k
    using that assms by (auto simp: cls_atom_heap dead_ends_ok_def less_Suc_eq)
  moreover have "(k = 0 \<and> length (atom_heap c h) = 1) \<or>
        (is_atom (cls (atom_heap c h ! k)) \<and>
         (Suc k < length (atom_heap c h) \<longrightarrow>
            cls (atom_heap c h ! Suc k) = PlusState (cls (atom_heap c h ! k))))"
    if "k < length (atom_heap c h)" "next_states (atom_heap c h ! k) = []" for k
  proof (cases "k = length h")
    case True
    with assms show ?thesis by (simp add: cls_atom_heap)
  next
    case False
    with that(1) have k: "k < length h" by simp
    with that(2) assms(2) have ne: "k \<noteq> length h - 1" and old: "next_states (h ! k) = []"
      by (auto simp: next_states_atom_heap split: if_splits)
    with k have "Suc k < length h" by simp
    with assms(1) k old show ?thesis
      by (auto simp: dead_ends_ok_def cls_atom_heap)
  qed
  ultimately show ?thesis unfolding dead_ends_ok_def by blast
qed

lemma dead_ends_ok_star_heap:
  assumes "dead_ends_ok h" "2 \<le> length h"
  shows "dead_ends_ok (star_heap h)"
proof -
  have "cls (star_heap h ! k) \<noteq> TerminationState" if "k < length (star_heap h)" for k
    using that assms by (auto simp: cls_star_heap dead_ends_ok_def less_Suc_eq)
  moreover have "(k = 0 \<and> length (star_heap h) = 1) \<or>
        (is_atom (cls (star_heap h ! k)) \<and>
         (Suc k < length (star_heap h) \<longrightarrow>
            cls (star_heap h ! Suc k) = PlusState (cls (star_heap h ! k))))"
    if "k < length (star_heap h)" "next_states (star_heap h ! k) = []" for k
  proof -
    from that assms(2) have k: "k < length h - 2" and old: "next_states (h ! k) = []"
      by (auto simp: next_states_star_heap less_Suc_eq split: if_splits)
    then have "Suc k < length h" by simp
    with assms(1) k old show ?thesis
      by (auto simp: dead_ends_ok_def cls_star_heap)
  qed
  ultimately show ?thesis unfolding dead_ends_ok_def by blast
qed

lemma dead_ends_ok_plus_heap:
  assumes "dead_ends_ok h" "2 \<le> length h"
  shows "dead_ends_ok (plus_heap h)"
proof -
  have "cls (plus_heap h ! k) \<noteq> TerminationState" if "k < length (plus_heap h)" for k
    using that assms by (auto simp: cls_plus_heap dead_ends_ok_def less_Suc_eq)
  moreover have "(k = 0 \<and> length (plus_heap h) = 1) \<or>
        (is_atom (cls (plus_heap h ! k)) \<and>
         (Suc k < length (plus_heap h) \<longrightarrow>
            cls (plus_heap h ! Suc k) = PlusState (cls (plus_heap h ! k))))"
    if "k < length (plus_heap h)" "next_states (plus_heap h ! k) = []" for k
  proof -
    from that assms(2) have k: "k < length h" "k \<noteq> length h - 2" and old: "next_states (h ! k) = []"
      by (auto simp: next_states_plus_heap less_Suc_eq split: if_splits)
    show ?thesis
    proof (cases "k = length h - 1")
      case True
      with assms k old show ?thesis
        by (auto simp: dead_ends_ok_def cls_plus_heap)
    next
      case False
      with k have "Suc k < length h" by simp
      with assms(1) k old show ?thesis
        by (auto simp: dead_ends_ok_def cls_plus_heap)
    qed
  qed
  ultimately show ?thesis unfolding dead_ends_ok_def by blast
qed

lemma dead_ends_ok_step_heap: "dead_ends_ok h \<Longrightarrow> step_ok k h \<Longrightarrow> dead_ends_ok (step_heap k h)"
  by (cases k)
    (auto simp: step_ok_def dead_ends_ok_atom_heap dead_ends_ok_star_heap dead_ends_ok_plus_heap)


section \<open>Patterns without operators\<close>

definition operator_free :: "pystr \<Rightarrow> bool" where
  "operator_free p \<longleftrightarrow> (\<forall>c\<in>set p. isascii c \<and> c \<noteq> chr_star \<and> c \<noteq> chr_plus)"

definition atom_cls :: "pychar \<Rightarrow> State_cls" where
  "atom_cls c = (if c = chr_dot then DotState else AsciiState c)"

text \<open>
  The heap while a pattern without operators is scanned: a chain from the start state
  through one state for each character read so far.
\<close>

definition is_chain :: "pystr \<Rightarrow> heap \<Rightarrow> bool" where
  "is_chain q h \<longleftrightarrow>
     length h = Suc (length q) \<and>
     (\<forall>i<length q. cls (h ! Suc i) = atom_cls (q ! i) \<and> next_states (h ! i) = [Suc i]) \<and>
     next_states (h ! length q) = []"

text \<open>The compiled automaton of such a pattern: the chain, closed by the termination state.\<close>

definition is_literal_automaton :: "pystr \<Rightarrow> heap \<Rightarrow> bool" where
  "is_literal_automaton p h \<longleftrightarrow>
     length h = Suc (Suc (length p)) \<and>
     (\<forall>i<length p. cls (h ! Suc i) = atom_cls (p ! i)) \<and>
     (\<forall>i\<le>length p. next_states (h ! i) = [Suc i]) \<and>
     cls (h ! Suc (length p)) = TerminationState \<and>
     next_states (h ! Suc (length p)) = []"

lemma step_of_atom:
  "c \<noteq> chr_star \<Longrightarrow> c \<noteq> chr_plus \<Longrightarrow> step_of c = Atom_step (atom_cls c)"
  by (simp add: step_of_def atom_cls_def)

lemma is_chain_initial: "is_chain [] (heap initial_fsm)"
  by (simp add: is_chain_def initial_fsm_def)

lemma is_chain_atom_heap:
  assumes "is_chain q h"
  shows "is_chain (q @ [c]) (atom_heap (atom_cls c) h)"
proof -
  from assms have len: "length h = Suc (length q)" and ne: "h \<noteq> []"
    by (auto simp: is_chain_def)
  have "cls (atom_heap (atom_cls c) h ! Suc i) = atom_cls ((q @ [c]) ! i)
        \<and> next_states (atom_heap (atom_cls c) h ! i) = [Suc i]"
    if "i < length (q @ [c])" for i
    using that assms len ne
    by (auto simp: is_chain_def cls_atom_heap next_states_atom_heap nth_append less_Suc_eq)
  moreover have "next_states (atom_heap (atom_cls c) h ! length (q @ [c])) = []"
    using len ne by (simp add: next_states_atom_heap)
  ultimately show ?thesis using len by (simp add: is_chain_def)
qed

lemma scan_chain:
  "frontier_ok fsm \<Longrightarrow> is_chain q (heap fsm) \<Longrightarrow> operator_free p \<Longrightarrow>
   \<exists>fsm'. scan fsm p = Inr fsm' \<and> frontier_ok fsm' \<and> is_chain (q @ p) (heap fsm')"
proof (induction p arbitrary: fsm q)
  case Nil
  then show ?case by simp
next
  case (Cons c p)
  then have c: "isascii c" "c \<noteq> chr_star" "c \<noteq> chr_plus" and p: "operator_free p"
    by (auto simp: operator_free_def)
  with consume_ok[OF Cons.prems(1), of c] obtain fsm1 where
    c1: "consume fsm c = Inr fsm1" and f1: "frontier_ok fsm1"
    and h1: "heap fsm1 = atom_heap (atom_cls c) (heap fsm)"
    by (auto simp: step_of_atom)
  from is_chain_atom_heap[OF Cons.prems(2), of c] h1 have "is_chain (q @ [c]) (heap fsm1)" by simp
  from Cons.IH[OF f1 this p] c1 show ?case by simp
qed

lemma is_literal_automaton_termination:
  assumes "is_chain p h"
  shows "is_literal_automaton p (atom_heap TerminationState h)"
proof -
  from assms have len: "length h = Suc (length p)" and ne: "h \<noteq> []"
    by (auto simp: is_chain_def)
  have "cls (atom_heap TerminationState h ! Suc i) = atom_cls (p ! i)" if "i < length p" for i
    using that assms len by (simp add: is_chain_def cls_atom_heap)
  moreover have "next_states (atom_heap TerminationState h ! i) = [Suc i]" if "i \<le> length p" for i
    using that assms len ne by (auto simp: is_chain_def next_states_atom_heap)
  ultimately show ?thesis
    using len ne by (simp add: is_literal_automaton_def cls_atom_heap next_states_atom_heap)
qed

lemma RegexFSM_init_operator_free:
  assumes "operator_free p"
  shows "\<exists>fsm. RegexFSM_init p = Inr fsm \<and> start_state fsm = 0 \<and> is_literal_automaton p (heap fsm)"
proof -
  from scan_chain[OF frontier_ok_initial is_chain_initial assms] obtain fsm0 where
    s: "scan initial_fsm p = Inr fsm0" and f: "frontier_ok fsm0" and c: "is_chain p (heap fsm0)"
    by auto
  from add_termination_frontier[OF f] obtain fsm where
    "add_termination fsm0 = Inr fsm" "start_state fsm = 0"
    "heap fsm = atom_heap TerminationState (heap fsm0)" by auto
  with s is_literal_automaton_termination[OF c] show ?thesis
    by (auto simp: RegexFSM_init_def)
qed

text \<open>
  The search on such an automaton follows the chain: a state whose character (or dot)
  fits the current input character reads it, any other state is passed without reading,
  and the input is accepted when it ends in the last state of the chain.
\<close>

fun skip_match :: "pystr \<Rightarrow> pystr \<Rightarrow> bool" where
  "skip_match [] s = (s = [])"
| "skip_match (c # p) [] = False"
| "skip_match (c # p) (x # s) =
     (if c = chr_dot \<or> x = c then skip_match p s else skip_match p (x # s))"

lemma check_self_atom_cls: "check_self (atom_cls c) x = (c = chr_dot \<or> x = c)"
  by (simp add: atom_cls_def)

lemma call_depth_atom_cls: "call_depth (atom_cls c) = 1"
  by (simp add: atom_cls_def)

lemma check_self_call_atom_cls:
  "check_self_call (Suc f) (atom_cls c) x = Inr (c = chr_dot \<or> x = c)"
  by (simp add: check_self_call_def call_depth_atom_cls check_self_atom_cls)

lemma atom_cls_not_Termination: "atom_cls c \<noteq> TerminationState"
  by (simp add: atom_cls_def)

text \<open>
  The state at address \<open>i\<close> of the chain is entered \<open>i + 1\<close> calls of \<open>dfs\<close> deep, and the
  search goes at most one call deeper than the termination state: \<open>length p + 2\<close> frames
  are enough for every input.
\<close>

lemma dfs_literal:
  assumes aut: "is_literal_automaton p h"
  shows "i \<le> length p \<Longrightarrow> j \<le> length s \<Longrightarrow> \<forall>(a, b)\<in>v. a < i \<Longrightarrow>
         length p - i + 2 \<le> frames \<Longrightarrow>
         \<exists>v'. dfs frames h s i j v = Inr (skip_match (drop i p) (drop j s), v')"
proof (induction "length p - i" arbitrary: i j v frames)
  case 0
  then have i: "i = length p" by simp
  from "0.prems"(4) obtain f f' where f: "frames = Suc f" "f = Suc f'"
    by (cases frames; cases "frames - 1") auto
  from aut have len: "length h = Suc (Suc (length p))"
    and nxt: "next_states (h ! length p) = [Suc (length p)]"
    and tcls: "cls (h ! Suc (length p)) = TerminationState"
    and tnxt: "next_states (h ! Suc (length p)) = []"
    by (auto simp: is_literal_automaton_def)
  from "0.prems"(3) have fresh: "(i, j) \<notin> v" "(Suc i, j) \<notin> v" by auto
  show ?case
  proof (cases "j = length s")
    case True
    with fresh i len nxt tcls f show ?thesis
      by (simp add: dfs.simps deref_def any_Termination_call_def)
  next
    case False
    with "0.prems" have lt: "j < length s" by simp
    then have "drop j s \<noteq> []" by simp
    then have "skip_match (drop i p) (drop j s) = False" using i by simp
    moreover have "dfs f h s (Suc (length p)) j (insert (length p, j) v)
        = Inr (False, insert (Suc (length p), j) (insert (length p, j) v))"
      using fresh i len tnxt False f by (simp add: dfs.simps deref_def)
    ultimately show ?thesis
      using fresh i len nxt tcls False lt f
      by (simp add: dfs.simps(2)[of _ h s "length p"] deref_def check_self_call_def)
  qed
next
  case (Suc n)
  then have i: "i < length p" by simp
  from Suc.prems(4) i obtain f f' where f: "frames = Suc f" "f = Suc f'"
    by (cases frames; cases "frames - 1") auto
  from aut i have len: "length h = Suc (Suc (length p))"
    and nxt: "next_states (h ! i) = [Suc i]"
    and c: "cls (h ! Suc i) = atom_cls (p ! i)"
    by (auto simp: is_literal_automaton_def)
  from Suc.prems(3) have fresh: "(i, j) \<notin> v" by auto
  have p_i: "drop i p = p ! i # drop (Suc i) p" using i by (simp add: Cons_nth_drop_Suc)
  show ?case
  proof (cases "j = length s")
    case True
    with fresh i len nxt c f show ?thesis
      by (simp add: dfs.simps deref_def atom_cls_not_Termination p_i any_Termination_call_def)
  next
    case False
    with Suc.prems have lt: "j < length s" by simp
    let ?v1 = "insert (i, j) v"
    from Suc.prems(3) have v1: "\<forall>(a, b)\<in>?v1. a < Suc i" by auto
    from Suc.hyps(2) have n: "n = length p - Suc i" by simp
    from Suc.prems(4) f i have budget: "length p - Suc i + 2 \<le> f" by simp
    have s_j: "drop j s = s ! j # drop (Suc j) s" using lt by (simp add: Cons_nth_drop_Suc)
    show ?thesis
    proof (cases "p ! i = chr_dot \<or> s ! j = p ! i")
      case True
      from Suc.hyps(1)[OF n, of "Suc j" ?v1 f] i lt v1 budget obtain v' where
        r: "dfs f h s (Suc i) (Suc j) ?v1 = Inr (skip_match (drop (Suc i) p) (drop (Suc j) s), v')"
        by auto
      have "skip_match (drop i p) (drop j s) = skip_match (drop (Suc i) p) (drop (Suc j) s)"
        using True by (simp add: p_i s_j)
      with r True fresh i len nxt c False lt f show ?thesis
        by (simp add: dfs.simps(2)[of _ h s i] deref_def check_self_call_atom_cls)
    next
      case nomatch: False
      from Suc.hyps(1)[OF n, of j ?v1 f] i lt v1 budget obtain v' where
        r: "dfs f h s (Suc i) j ?v1 = Inr (skip_match (drop (Suc i) p) (drop j s), v')"
        by auto
      have "skip_match (drop i p) (drop j s) = skip_match (drop (Suc i) p) (drop j s)"
        using nomatch s_j by (simp add: p_i)
      with r nomatch fresh i len nxt c False lt f show ?thesis
        by (simp add: dfs.simps(2)[of _ h s i] deref_def check_self_call_atom_cls)
    qed
  qed
qed


lemma regex_check_operator_free:
  assumes "operator_free p" "length p + 2 \<le> frames"
  shows "regex_check frames p s = Inr (skip_match p s)"
proof -
  from RegexFSM_init_operator_free[OF assms(1)] obtain fsm where
    c: "RegexFSM_init p = Inr fsm" and st: "start_state fsm = 0"
    and aut: "is_literal_automaton p (heap fsm)" by auto
  from dfs_literal[OF aut, of 0 0 s "{}" frames] assms(2) obtain v' where
    "dfs frames (heap fsm) s 0 0 {} = Inr (skip_match p s, v')" by auto
  with c st show ?thesis by (simp add: regex_check_def check_string_def)
qed





section \<open>The pattern \<open>a*\<close>\<close>

definition a_star_heap :: heap where
  "a_star_heap =
     [\<lparr>cls = StartState, next_states = [1, 2]\<rparr>,
      \<lparr>cls = AsciiState 97, next_states = [2]\<rparr>,
      \<lparr>cls = StarState (AsciiState 97), next_states = [2, 3]\<rparr>,
      \<lparr>cls = TerminationState, next_states = []\<rparr>]"

lemma RegexFSM_init_a_star:
  "RegexFSM_init (str ''a*'') = Inr \<lparr>heap = a_star_heap, start_state = 0, states = [0, 1, 2]\<rparr>"
  by code_simp

lemma a_star_heap_nth [simp]:
  "length a_star_heap = 4"
  "a_star_heap ! 0 = \<lparr>cls = StartState, next_states = [1, 2]\<rparr>"
  "a_star_heap ! Suc 0 = \<lparr>cls = AsciiState 97, next_states = [2]\<rparr>"
  "a_star_heap ! 2 = \<lparr>cls = StarState (AsciiState 97), next_states = [2, 3]\<rparr>"
  "a_star_heap ! 3 = \<lparr>cls = TerminationState, next_states = []\<rparr>"
  by (simp_all add: a_star_heap_def eval_nat_numeral)

text \<open>
  From the star state every remaining \<open>a\<close> is read by its self-loop, one call of \<open>dfs\<close>
  deeper for each; at the end of the input the generator expression takes one more frame.
\<close>

lemma a_star_loop:
  "j \<le> m \<Longrightarrow> \<forall>(a, b)\<in>v. a = 2 \<longrightarrow> b < j \<Longrightarrow> m - j + 2 \<le> frames \<Longrightarrow>
   \<exists>v'. dfs frames a_star_heap (replicate m 97) 2 j v = Inr (True, v')"
proof (induction "m - j" arbitrary: j v frames)
  case 0
  then have j: "j = m" and fresh: "(2, j) \<notin> v" by auto
  from "0.prems"(3) obtain f' where "frames = Suc (Suc f')"
    by (cases frames; cases "frames - 1") auto
  with j fresh show ?case
    by (simp add: dfs.simps deref_def any_Termination_call_def)
next
  case (Suc n)
  then have lt: "j < m" and fresh: "(2, j) \<notin> v" by auto
  from Suc.prems(3) lt obtain f where f: "frames = Suc f" "m - Suc j + 2 \<le> f" "2 \<le> f"
    by (cases frames) auto
  from Suc.prems(2) have v1: "\<forall>(a, b)\<in>insert (2, j) v. a = 2 \<longrightarrow> b < Suc j" by auto
  from Suc.hyps(2) have n: "n = m - Suc j" by simp
  from Suc.hyps(1)[OF n _ v1 f(2)] lt obtain v' where
    "dfs f a_star_heap (replicate m 97) 2 (Suc j) (insert (2, j) v) = Inr (True, v')"
    by auto
  with lt fresh f show ?case
    by (simp add: dfs.simps(2)[of _ _ _ 2 j] deref_def check_self_call_def)
qed

lemma a_star_loop_overflow:
  "j \<le> m \<Longrightarrow> \<forall>(a, b)\<in>v. a = 2 \<longrightarrow> b < j \<Longrightarrow> frames < m - j + 2 \<Longrightarrow>
   dfs frames a_star_heap (replicate m 97) 2 j v = Inl RecursionError"
proof (induction "m - j" arbitrary: j v frames)
  case 0
  then have j: "j = m" and fresh: "(2, j) \<notin> v" by auto
  from "0.prems"(3) j have "frames = 0 \<or> frames = Suc 0" by auto
  with j fresh show ?case
    by (auto simp: dfs.simps deref_def any_Termination_call_def)
next
  case (Suc n)
  then have lt: "j < m" and fresh: "(2, j) \<notin> v" by auto
  show ?case
  proof (cases frames)
    case 0
    then show ?thesis by (simp add: dfs.simps)
  next
    case f: (Suc f)
    show ?thesis
    proof (cases "f < 2")
      case True
      with f lt fresh show ?thesis
        by (simp add: dfs.simps(2)[of _ _ _ 2 j] deref_def check_self_call_def)
    next
      case False
      from Suc.prems(2) have v1: "\<forall>(a, b)\<in>insert (2, j) v. a = 2 \<longrightarrow> b < Suc j" by auto
      from Suc.hyps(2) have n: "n = m - Suc j" by simp
      from Suc.prems(3) f lt have "f < m - Suc j + 2" by simp
      from Suc.hyps(1)[OF n _ v1 this] lt
      have "dfs f a_star_heap (replicate m 97) 2 (Suc j) (insert (2, j) v) = Inl RecursionError"
        by simp
      with False f lt fresh show ?thesis
        by (simp add: dfs.simps(2)[of _ _ _ 2 j] deref_def check_self_call_def)
    qed
  qed
qed

lemma a_star_empty:
  "regex_check frames (str ''a*'') [] = (if 2 \<le> frames then Inr False else Inl RecursionError)"
proof -
  consider "frames = 0" | "frames = Suc 0" | f where "frames = Suc (Suc f)"
    by (cases frames; cases "frames - 1") auto
  then show ?thesis
    by cases
      (simp_all add: regex_check_def RegexFSM_init_a_star check_string_def dfs.simps deref_def
        any_Termination_call_def)
qed

lemma a_star_accepts_one_or_more:
  assumes "n + 3 \<le> frames"
  shows "regex_check frames (str ''a*'') (replicate (Suc n) 97) = Inr True"
proof -
  let ?s = "replicate (Suc n) 97"
  let ?v1 = "{(Suc 0, Suc 0), (0, 0)}"
  from assms obtain f1 where f: "frames = Suc (Suc f1)" "n + 1 \<le> f1"
    by (cases frames; cases "frames - 1") auto
  have "\<exists>v'. dfs frames a_star_heap ?s 0 0 {} = Inr (True, v')"
  proof (cases n)
    case 0
    from a_star_loop[of "Suc 0" "Suc n" ?v1 "Suc f1"] f(2) obtain v' where
      "dfs (Suc f1) a_star_heap ?s 2 (Suc 0) ?v1 = Inr (True, v')" by auto
    with 0 f show ?thesis
      by (simp add: dfs.simps(2)[of _ _ _ 0 0] dfs.simps(2)[of _ _ _ "Suc 0" "Suc 0"] deref_def
          check_self_call_def any_Termination_call_def)
  next
    case (Suc k)
    with f(2) have two: "2 \<le> f1" by simp
    from a_star_loop[of "Suc (Suc 0)" "Suc n" ?v1 f1] Suc f(2) obtain v' where
      "dfs f1 a_star_heap ?s 2 (Suc (Suc 0)) ?v1 = Inr (True, v')" by auto
    with Suc f two show ?thesis
      by (simp add: dfs.simps(2)[of _ _ _ 0 0] dfs.simps(2)[of _ _ _ "Suc 0" "Suc 0"] deref_def
          check_self_call_def)
  qed
  then show ?thesis
    by (auto simp: regex_check_def RegexFSM_init_a_star check_string_def)
qed

lemma a_star_overflow:
  assumes "frames < n + 3"
  shows "regex_check frames (str ''a*'') (replicate (Suc n) 97) = Inl RecursionError"
proof -
  let ?s = "replicate (Suc n) 97"
  let ?v1 = "{(Suc 0, Suc 0), (0, 0)}"
  have "dfs frames a_star_heap ?s 0 0 {} = Inl RecursionError"
  proof (cases frames)
    case 0
    then show ?thesis by (simp add: dfs.simps)
  next
    case f: (Suc f)
    show ?thesis
    proof (cases f)
      case 0
      with f show ?thesis
        by (simp add: dfs.simps(2)[of _ _ _ 0 0] deref_def check_self_call_def)
    next
      case f1: (Suc f1)
      with f assms have small: "f1 < n + 1" by simp
      show ?thesis
      proof (cases n)
        case 0
        with small have "f1 = 0" by simp
        with 0 f f1 show ?thesis
          by (simp add: dfs.simps(2)[of _ _ _ 0 0] dfs.simps(2)[of _ _ _ "Suc 0" "Suc 0"] deref_def
              check_self_call_def any_Termination_call_def)
      next
        case (Suc k)
        show ?thesis
        proof (cases "f1 < 2")
          case True
          with Suc f f1 show ?thesis
            by (simp add: dfs.simps(2)[of _ _ _ 0 0] dfs.simps(2)[of _ _ _ "Suc 0" "Suc 0"]
                deref_def check_self_call_def)
        next
          case False
          from a_star_loop_overflow[of "Suc (Suc 0)" "Suc n" ?v1 f1] Suc small
          have "dfs f1 a_star_heap ?s 2 (Suc (Suc 0)) ?v1 = Inl RecursionError" by auto
          with False Suc f f1 show ?thesis
            by (simp add: dfs.simps(2)[of _ _ _ 0 0] dfs.simps(2)[of _ _ _ "Suc 0" "Suc 0"]
                deref_def check_self_call_def)
        qed
      qed
    qed
  qed
  then show ?thesis
    by (simp add: regex_check_def RegexFSM_init_a_star check_string_def)
qed

section \<open>The claims\<close>

text \<open>
  C1 (the pattern \<open>a*\<close>). The specification asks that \<open>a*\<close> accepts the empty string and
  every string of \<open>n\<close> copies of \<open>a\<close>. On the empty string the search stops in the start
  state, whose transitions lead to the \<open>a\<close> state and to the star state only, never to the
  termination state: the result is \<open>False\<close> (or the RecursionError when not even two frames
  are left), never \<open>True\<close>. A string of \<open>n + 1\<close> copies of \<open>a\<close> is accepted when \<open>n + 3\<close>
  frames are left, and raises the RecursionError otherwise.
\<close>

theorem a_star_rejects_empty_string:
  "regex_check frames (str ''a*'') (str '''')
     = (if 2 \<le> frames then Inr False else Inl RecursionError)
   \<and> regex_check frames (str ''a*'') (replicate (Suc n) (of_char CHR ''a''))
     = (if n + 3 \<le> frames then Inr True else Inl RecursionError)"
proof -
  have "regex_check frames (str ''a*'') (str '''')
     = (if 2 \<le> frames then Inr False else Inl RecursionError)"
    using a_star_empty[of frames] by (simp add: str_def)
  moreover have "regex_check frames (str ''a*'') (replicate (Suc n) 97)
     = (if n + 3 \<le> frames then Inr True else Inl RecursionError)"
    using a_star_accepts_one_or_more[of n frames] a_star_overflow[of frames n] by auto
  ultimately show ?thesis by simp
qed

text \<open>
  C2 (the pattern \<open>a*4.+hi\<close> on \<open>44hi\<close>). The claim is that the input is rejected. It is
  accepted: the first \<open>4\<close> is read by the literal, the second by the plus state over the dot.
  The search is nine calls deep.
\<close>

theorem a_star_4_dot_plus_hi_accepts_44hi:
  "regex_check frames (str ''a*4.+hi'') (str ''44hi'')
     = (if 9 \<le> frames then Inr True else Inl RecursionError)"
proof (cases "9 \<le> frames")
  case True
  have "regex_check 9 (str ''a*4.+hi'') (str ''44hi'') = Inr True" by code_simp
  from regex_check_mono[OF this True] True show ?thesis by simp
next
  case False
  have "list_all (\<lambda>f. regex_check f (str ''a*4.+hi'') (str ''44hi'') = Inl RecursionError)
          [0..<9]"
    by code_simp
  with False show ?thesis by (simp add: list_all_iff)
qed

theorem rejects_44hi_counterexample:
  "regex_check 998 (str ''a*4.+hi'') (str ''44hi'') \<noteq> Inr False"
  by code_simp

text \<open>
  C3. For a pattern of ASCII characters without \<open>*\<close> and \<open>+\<close>, the claim is that a string
  is accepted if and only if it has the length of the pattern and agrees with it at every
  position that is not a dot. The pattern \<open>ab\<close> accepts the string \<open>b\<close>: the state for
  \<open>a\<close> does not fit the character \<open>b\<close> and is passed without reading it. The string \<open>a\<close>
  is rejected by the same pattern.
\<close>

theorem literal_ab_accepts_b:
  "regex_check frames (str ''ab'') (str ''b'')
     = (if 4 \<le> frames then Inr True else Inl RecursionError)
   \<and> regex_check frames (str ''ab'') (str ''a'')
     = (if 3 \<le> frames then Inr False else Inl RecursionError)"
proof -
  have "regex_check frames (str ''ab'') (str ''b'')
     = (if 4 \<le> frames then Inr True else Inl RecursionError)"
  proof (cases "4 \<le> frames")
    case True
    have "regex_check 4 (str ''ab'') (str ''b'') = Inr True" by code_simp
    from regex_check_mono[OF this True] True show ?thesis by simp
  next
    case False
    have "list_all (\<lambda>f. regex_check f (str ''ab'') (str ''b'') = Inl RecursionError) [0..<4]"
      by code_simp
    with False show ?thesis by (simp add: list_all_iff)
  qed
  moreover have "regex_check frames (str ''ab'') (str ''a'')
     = (if 3 \<le> frames then Inr False else Inl RecursionError)"
  proof (cases "3 \<le> frames")
    case True
    have "regex_check 3 (str ''ab'') (str ''a'') = Inr False" by code_simp
    from regex_check_mono[OF this True] True show ?thesis by simp
  next
    case False
    have "list_all (\<lambda>f. regex_check f (str ''ab'') (str ''a'') = Inl RecursionError) [0..<3]"
      by code_simp
    with False show ?thesis by (simp add: list_all_iff)
  qed
  ultimately show ?thesis by simp
qed

text \<open>
  C4 (the pattern \<open>a+\<close>). The empty string is rejected and \<open>a\<close> is accepted; in the
  automaton the base state (address 1) has no transition to the plus state (address 2),
  in fact no transition at all, while the start state leads to both. The two searches are
  two and three calls deep.
\<close>

theorem a_plus_at_least_one:
  "regex_check frames (str ''a+'') (str '''')
     = (if 2 \<le> frames then Inr False else Inl RecursionError)
   \<and> regex_check frames (str ''a+'') (str ''a'')
     = (if 3 \<le> frames then Inr True else Inl RecursionError)
   \<and> RegexFSM_init (str ''a+'') =
       Inr \<lparr>heap = [\<lparr>cls = StartState, next_states = [1, 2]\<rparr>,
                    \<lparr>cls = AsciiState 97, next_states = []\<rparr>,
                    \<lparr>cls = PlusState (AsciiState 97), next_states = [2, 3]\<rparr>,
                    \<lparr>cls = TerminationState, next_states = []\<rparr>],
            start_state = 0, states = [0, 1, 2]\<rparr>"
proof -
  have "regex_check frames (str ''a+'') (str '''')
     = (if 2 \<le> frames then Inr False else Inl RecursionError)"
  proof (cases "2 \<le> frames")
    case True
    have "regex_check 2 (str ''a+'') (str '''') = Inr False" by code_simp
    from regex_check_mono[OF this True] True show ?thesis by simp
  next
    case False
    have "list_all (\<lambda>f. regex_check f (str ''a+'') (str '''') = Inl RecursionError) [0..<2]"
      by code_simp
    with False show ?thesis by (simp add: list_all_iff)
  qed
  moreover have "regex_check frames (str ''a+'') (str ''a'')
     = (if 3 \<le> frames then Inr True else Inl RecursionError)"
  proof (cases "3 \<le> frames")
    case True
    have "regex_check 3 (str ''a+'') (str ''a'') = Inr True" by code_simp
    from regex_check_mono[OF this True] True show ?thesis by simp
  next
    case False
    have "list_all (\<lambda>f. regex_check f (str ''a+'') (str ''a'') = Inl RecursionError) [0..<3]"
      by code_simp
    with False show ?thesis by (simp add: list_all_iff)
  qed
  moreover have "RegexFSM_init (str ''a+'') =
       Inr \<lparr>heap = [\<lparr>cls = StartState, next_states = [1, 2]\<rparr>,
                    \<lparr>cls = AsciiState 97, next_states = []\<rparr>,
                    \<lparr>cls = PlusState (AsciiState 97), next_states = [2, 3]\<rparr>,
                    \<lparr>cls = TerminationState, next_states = []\<rparr>],
            start_state = 0, states = [0, 1, 2]\<rparr>"
    by code_simp
  ultimately show ?thesis by simp
qed




text \<open>
  C6. The claim is that in a compiled automaton the termination state has no transition
  and every other state has at least one. The termination state is the last state of the
  heap, it is the only one of its class and it has no transition. Another state can be
  without transitions in one case only: it is a literal or a dot and the state allocated
  right after it is the plus state that wraps it (the \<open>+\<close> branch gives its base no
  transition).
\<close>

theorem states_without_transitions:
  assumes "RegexFSM_init regex_expr = Inr fsm"
  shows "heap fsm \<noteq> []
     \<and> cls (last (heap fsm)) = TerminationState
     \<and> next_states (last (heap fsm)) = []
     \<and> (\<forall>k<length (heap fsm) - 1.
          cls (heap fsm ! k) \<noteq> TerminationState
          \<and> (next_states (heap fsm ! k) = [] \<longrightarrow>
               is_atom (cls (heap fsm ! k)) \<and> cls (heap fsm ! Suc k) = PlusState (cls (heap fsm ! k))))"
proof -
  from RegexFSM_init_Inr[OF assms] obtain fsm0 where s: "scan initial_fsm regex_expr = Inr fsm0"
    and f: "frontier_ok fsm0" and h: "heap fsm = atom_heap TerminationState (heap fsm0)" by auto
  from scan_invariant[of dead_ends_ok, OF dead_ends_ok_step_heap frontier_ok_initial
      dead_ends_ok_initial s]
  have inv: "dead_ends_ok (heap fsm0)" by simp
  from f have ne: "heap fsm0 \<noteq> []" by (simp add: frontier_ok_def)
  let ?n = "length (heap fsm0)"
  have len: "length (heap fsm) = Suc ?n" using h by simp
  then have nonempty: "heap fsm \<noteq> []" by auto
  have last: "last (heap fsm) = heap fsm ! ?n"
    using len nonempty by (simp add: last_conv_nth)
  have "cls (heap fsm ! ?n) = TerminationState" "next_states (heap fsm ! ?n) = []"
    using ne by (simp_all add: h cls_atom_heap next_states_atom_heap)
  moreover have "cls (heap fsm ! k) \<noteq> TerminationState
          \<and> (next_states (heap fsm ! k) = [] \<longrightarrow>
               is_atom (cls (heap fsm ! k)) \<and> cls (heap fsm ! Suc k) = PlusState (cls (heap fsm ! k)))"
    if "k < length (heap fsm) - 1" for k
  proof -
    from that len have k: "k < ?n" by simp
    with inv have c: "cls (heap fsm ! k) \<noteq> TerminationState"
      by (simp add: h cls_atom_heap dead_ends_ok_def)
    have "is_atom (cls (heap fsm ! k)) \<and> cls (heap fsm ! Suc k) = PlusState (cls (heap fsm ! k))"
      if empty: "next_states (heap fsm ! k) = []"
    proof -
      from empty k ne have "k \<noteq> ?n - 1" and old: "next_states (heap fsm0 ! k) = []"
        by (auto simp: h next_states_atom_heap split: if_splits)
      with k have "Suc k < ?n" by simp
      with inv k old show ?thesis
        by (auto simp: h dead_ends_ok_def cls_atom_heap)
    qed
    with c show ?thesis by simp
  qed
  ultimately show ?thesis using nonempty last by simp
qed

theorem states_without_transitions_witness:
  "\<exists>fsm. RegexFSM_init (str ''a+'') = Inr fsm
     \<and> cls (last (heap fsm)) = TerminationState
     \<and> next_states (last (heap fsm)) = []
     \<and> next_states (heap fsm ! 0) \<noteq> []"
proof -
  obtain fsm where c: "RegexFSM_init (str ''a+'') = Inr fsm"
    using RegexFSM_init_ascii[of 97 "str ''+''"] by (auto simp: str_def isascii_def)
  from RegexFSM_init_start[OF c] have start: "cls (heap fsm ! 0) = StartState" "1 < length (heap fsm)"
    by auto
  from states_without_transitions[OF c]
  have l: "cls (last (heap fsm)) = TerminationState" "next_states (last (heap fsm)) = []"
    and a: "\<And>k. k < length (heap fsm) - 1 \<Longrightarrow> next_states (heap fsm ! k) = [] \<Longrightarrow>
       is_atom (cls (heap fsm ! k))"
    by auto
  from a[of 0] start have "next_states (heap fsm ! 0) \<noteq> []" by auto
  with c l show ?thesis by blast
qed

theorem base_of_plus_counterexample:
  "RegexFSM_init (str ''a+'') =
     Inr \<lparr>heap = [\<lparr>cls = StartState, next_states = [1, 2]\<rparr>,
                  \<lparr>cls = AsciiState 97, next_states = []\<rparr>,
                  \<lparr>cls = PlusState (AsciiState 97), next_states = [2, 3]\<rparr>,
                  \<lparr>cls = TerminationState, next_states = []\<rparr>],
          start_state = 0, states = [0, 1, 2]\<rparr>"
  by code_simp

text \<open>
  C7. The claim is that compiling \<open>a#b\<close> raises the invalid-character error. It does not:
  \<open>#\<close> is an ASCII character other than \<open>*\<close>, \<open>+\<close> and \<open>.\<close>, so it becomes a literal
  state. The error \<open>ValueError("Invalid character")\<close> is raised exactly for a pattern
  that holds a non-ASCII character and does not begin with \<open>*\<close> or \<open>+\<close>.
\<close>

theorem invalid_character_is_non_ascii:
  "RegexFSM_init (str ''a#b'') =
     Inr \<lparr>heap = [\<lparr>cls = StartState, next_states = [1]\<rparr>,
                  \<lparr>cls = AsciiState 97, next_states = [2]\<rparr>,
                  \<lparr>cls = AsciiState 35, next_states = [3]\<rparr>,
                  \<lparr>cls = AsciiState 98, next_states = [4]\<rparr>,
                  \<lparr>cls = TerminationState, next_states = []\<rparr>],
          start_state = 0, states = [0, 1, 2, 3]\<rparr>
   \<and> (RegexFSM_init p = Inl ValueError \<longleftrightarrow>
        (\<exists>c\<in>set p. \<not> isascii c) \<and> take 1 p \<noteq> [chr_star] \<and> take 1 p \<noteq> [chr_plus])"
proof -
  have hash: "RegexFSM_init (str ''a#b'') =
     Inr \<lparr>heap = [\<lparr>cls = StartState, next_states = [1]\<rparr>,
                  \<lparr>cls = AsciiState 97, next_states = [2]\<rparr>,
                  \<lparr>cls = AsciiState 35, next_states = [3]\<rparr>,
                  \<lparr>cls = AsciiState 98, next_states = [4]\<rparr>,
                  \<lparr>cls = TerminationState, next_states = []\<rparr>],
          start_state = 0, states = [0, 1, 2, 3]\<rparr>"
    by code_simp
  have "RegexFSM_init p = Inl ValueError \<longleftrightarrow>
        (\<exists>c\<in>set p. \<not> isascii c) \<and> take 1 p \<noteq> [chr_star] \<and> take 1 p \<noteq> [chr_plus]"
  proof (cases p)
    case Nil
    with RegexFSM_init_Nil show ?thesis by auto
  next
    case (Cons c rest)
    show ?thesis
    proof (cases "c = chr_star \<or> c = chr_plus")
      case True
      with RegexFSM_init_operator_first[OF True, of rest] Cons show ?thesis by auto
    next
      case False
      show ?thesis
      proof (cases "\<exists>x\<in>set (c # rest). \<not> isascii x")
        case True
        with False RegexFSM_init_not_ascii[of c rest] Cons show ?thesis by simp
      next
        case ascii: False
        with False RegexFSM_init_ascii[of c rest] Cons show ?thesis by auto
      qed
    qed
  qed
  with hash show ?thesis by simp
qed

theorem invalid_character_is_non_ascii_witness:
  "RegexFSM_init [97, 233, 98] = Inl ValueError \<and> RegexFSM_init (str ''a#b'') \<noteq> Inl ValueError"
  using invalid_character_is_non_ascii[of "[97, 233, 98]"]
    invalid_character_is_non_ascii[of "str ''a#b''"]
  by (simp add: isascii_def str_def)

theorem hash_is_a_literal_counterexample:
  "\<not> isl (RegexFSM_init (str ''a#b''))"
  by code_simp

text \<open>
  C8. The claim is that a pattern that begins with \<open>*\<close> or \<open>+\<close>, or has two operators in
  a row, fails with the invalid-pattern error. A pattern that begins with \<open>*\<close> or \<open>+\<close>
  does fail and returns no automaton, but with the IndexError of \<open>self.states[-2]\<close>, not
  with the builder's ValueError. A pattern of ASCII characters that begins with another
  character compiles, whatever operators follow, two in a row included.
\<close>

theorem operator_first_IndexError:
  "(c = chr_star \<or> c = chr_plus \<longrightarrow> RegexFSM_init (c # p) = Inl IndexError)
   \<and> (c \<noteq> chr_star \<and> c \<noteq> chr_plus \<and> (\<forall>x\<in>set (c # p). isascii x) \<longrightarrow>
        (\<exists>fsm. RegexFSM_init (c # p) = Inr fsm))"
  using RegexFSM_init_operator_first[of c p] RegexFSM_init_ascii[of c p] by blast

theorem operator_first_IndexError_witness:
  "RegexFSM_init (str ''*a'') = Inl IndexError
   \<and> RegexFSM_init (str ''+'') = Inl IndexError
   \<and> (\<exists>fsm. RegexFSM_init (str ''a**'') = Inr fsm)
   \<and> (\<exists>fsm. RegexFSM_init (str ''a+*b'') = Inr fsm)"
  using operator_first_IndexError[of 42 "str ''a''"] operator_first_IndexError[of 43 "[]"]
    operator_first_IndexError[of 97 "str ''**''"] operator_first_IndexError[of 97 "str ''+*b''"]
  by (simp add: isascii_def str_def)

theorem two_operators_in_a_row_counterexample:
  "RegexFSM_init (str ''a**'') =
     Inr \<lparr>heap = [\<lparr>cls = StartState, next_states = [1, 2]\<rparr>,
                  \<lparr>cls = AsciiState 97, next_states = [2, 3]\<rparr>,
                  \<lparr>cls = StarState (AsciiState 97), next_states = [2, 3, 2]\<rparr>,
                  \<lparr>cls = StarState (StarState (AsciiState 97)), next_states = [3, 2, 4]\<rparr>,
                  \<lparr>cls = TerminationState, next_states = []\<rparr>],
          start_state = 0, states = [0, 1, 2, 3]\<rparr>
   \<and> RegexFSM_init (str ''*'') \<noteq> Inl ValueError"
  by code_simp




text \<open>
  C10. The empty pattern compiles, and its automaton accepts the empty string and no
  other string. The search is two calls deep.
\<close>

theorem empty_pattern_accepts_only_empty_string:
  "(\<exists>fsm. RegexFSM_init [] = Inr fsm)
   \<and> regex_check frames [] s = (if 2 \<le> frames then Inr (s = []) else Inl RecursionError)"
proof -
  have of: "operator_free []" by (simp add: operator_free_def)
  have "regex_check frames [] s = Inr (s = [])" if "2 \<le> frames"
    using regex_check_operator_free[OF of, of frames s] that by simp
  moreover have "regex_check frames [] s = Inl RecursionError" if "\<not> 2 \<le> frames"
  proof -
    have c: "RegexFSM_init [] =
      Inr \<lparr>heap = [\<lparr>cls = StartState, next_states = [1]\<rparr>,
                   \<lparr>cls = TerminationState, next_states = []\<rparr>],
           start_state = 0, states = [0]\<rparr>"
      by code_simp
    from that have "frames = 0 \<or> frames = Suc 0" by auto
    then show ?thesis
      by (cases s)
        (auto simp: regex_check_def c check_string_def dfs.simps deref_def
          any_Termination_call_def check_self_call_def)
  qed
  ultimately show ?thesis using RegexFSM_init_Nil by simp
qed

end
